theory Spec2Isabelle
  imports Main "HOL-Library.Sublist"
begin

section \<open>Data model\<close>

text \<open>
  An object descriptor is the dictionary with the fields \<open>bucket\<close>, \<open>key\<close> and
  \<open>last_modified\<close> that \<open>list_s3_keys\<close> builds and \<open>save_keys_to_db\<close> reads. All three values
  are text. A row of the table \<open>s3_keys\<close> has the same three columns and the integer primary
  key \<open>id\<close> (called \<open>row_id\<close> here, \<open>id\<close> being the identity function of HOL).
\<close>

record descriptor =
  bucket :: string
  key :: string
  last_modified :: string

record s3_row = descriptor +
  row_id :: int

text \<open>The identity of a descriptor or of a row: the pair \<open>(bucket, key)\<close>.\<close>

definition identity :: "'a descriptor_scheme \<Rightarrow> string \<times> string" where
  "identity d = (bucket d, key d)"

text \<open>
  The database file holds the table \<open>s3_keys\<close> or does not hold it yet (\<open>None\<close>). The rows are
  kept in insertion order, which is the order of a full scan.
\<close>

type_synonym s3_table = "s3_row list"
type_synonym database = "s3_table option"

datatype db_error =
    NoSuchTable
  | TooManyVariables
  | IntegrityError
  | EngineFault

text \<open>
  What the storage engine contributes beyond the table: the ceiling on the number of bound
  parameters of one statement (SQLITE_MAX_VARIABLE_NUMBER, a build constant of the engine), and
  the failures that do not come from the data: \<open>executemany_fault\<close> makes the batch statement
  raise (as the mock of the unit test \<open>test_save_keys_to_db_with_exception\<close> does), and
  \<open>execute_fault i\<close> makes the \<open>i\<close>-th individual insert of the fallback loop raise.
\<close>

record sqlite_env =
  max_variable_number :: nat
  executemany_fault :: bool
  execute_fault :: "nat \<Rightarrow> bool"

section \<open>The index store: \<open>db/operations.py\<close>\<close>

text \<open>\<open>CREATE TABLE IF NOT EXISTS s3_keys\<close>: the table afterwards.\<close>

definition setup_database :: "database \<Rightarrow> s3_table" where
  "setup_database db = (case db of None \<Rightarrow> [] | Some t \<Rightarrow> t)"

text \<open>
  \<open>get_existing_keys\<close>: one \<open>SELECT bucket, key ... WHERE (bucket, key) IN (...)\<close> with one
  placeholder pair per input dictionary, so \<open>flat_params\<close> has two entries for each.
  The function does not create the table.
\<close>

definition flat_params :: "(string \<times> string) list \<Rightarrow> string list" where
  "flat_params bucket_key_pairs = concat (map (\<lambda>(b, k). [b, k]) bucket_key_pairs)"

definition get_existing_keys ::
  "sqlite_env \<Rightarrow> database \<Rightarrow> 'a descriptor_scheme list \<Rightarrow> db_error + (string \<times> string) set" where
  "get_existing_keys env db keys =
     (if keys = [] then Inr {}
      else case db of
        None \<Rightarrow> Inl NoSuchTable
      | Some t \<Rightarrow>
          (let bucket_key_pairs = map identity keys in
           if max_variable_number env < length (flat_params bucket_key_pairs)
           then Inl TooManyVariables
           else Inr (set (filter (\<lambda>p. p \<in> set bucket_key_pairs) (map identity t)))))"

text \<open>
  One \<open>INSERT INTO s3_keys (bucket, key, last_modified) VALUES (?, ?, ?)\<close>: refused by the
  constraint \<open>UNIQUE(bucket, key)\<close> when the identity is stored, otherwise the row is appended
  with the next free \<open>id\<close>.
\<close>

definition next_row_id :: "s3_table \<Rightarrow> int" where
  "next_row_id t = fold max (map row_id t) 0 + 1"

definition insert_row :: "s3_table \<Rightarrow> descriptor \<Rightarrow> db_error + s3_table" where
  "insert_row t d =
     (if identity d \<in> set (map identity t) then Inl IntegrityError
      else Inr (t @ [\<lparr>bucket = bucket d, key = key d, last_modified = last_modified d,
                      row_id = next_row_id t\<rparr>]))"

text \<open>\<open>cursor.executemany\<close>: the inserts in order, stopping at the first that raises.\<close>

fun executemany_rows :: "s3_table \<Rightarrow> descriptor list \<Rightarrow> db_error + s3_table" where
  "executemany_rows t [] = Inr t"
| "executemany_rows t (d # ds) =
     (case insert_row t d of
        Inl e \<Rightarrow> Inl e
      | Inr t' \<Rightarrow> executemany_rows t' ds)"

text \<open>
  The \<open>try\<close> block of \<open>save_keys_to_db\<close>: the table and \<open>count\<close> after the commit, or the
  exception. \<open>rowcount\<close> is the number of rows the statement added.
\<close>

definition batch_insert :: "sqlite_env \<Rightarrow> s3_table \<Rightarrow> descriptor list \<Rightarrow> db_error + (s3_table \<times> nat)" where
  "batch_insert env t new_keys =
     (if new_keys \<noteq> [] then
        (if executemany_fault env then Inl EngineFault
         else case executemany_rows t new_keys of
           Inl e \<Rightarrow> Inl e
         | Inr t' \<Rightarrow>
             (let rowcount = length t' - length t in
              Inr (t', if rowcount > 0 then rowcount else length new_keys)))
      else Inr (t, 0))"

text \<open>
  The fallback loop of the \<open>except\<close> branch, run on the table as the rollback left it:
  \<open>i\<close> is the position in \<open>new_keys\<close>, \<open>count\<close> the running number of successful inserts.
\<close>

fun fallback_inserts :: "sqlite_env \<Rightarrow> nat \<Rightarrow> s3_table \<Rightarrow> nat \<Rightarrow> descriptor list \<Rightarrow> s3_table \<times> nat" where
  "fallback_inserts env i t count [] = (t, count)"
| "fallback_inserts env i t count (key_info # rest) =
     (if execute_fault env i then fallback_inserts env (Suc i) t count rest
      else case insert_row t key_info of
        Inl e \<Rightarrow> fallback_inserts env (Suc i) t count rest
      | Inr t' \<Rightarrow> fallback_inserts env (Suc i) t' (count + 1) rest)"

text \<open>The loop that separates new and existing keys.\<close>

fun separate_keys ::
  "(string \<times> string) set \<Rightarrow> descriptor list \<Rightarrow> descriptor list \<Rightarrow> nat \<Rightarrow> descriptor list \<times> nat" where
  "separate_keys existing_keys [] new_keys skipped = (new_keys, skipped)"
| "separate_keys existing_keys (key_info # rest) new_keys skipped =
     (if (bucket key_info, key key_info) \<in> existing_keys
      then separate_keys existing_keys rest new_keys (skipped + 1)
      else separate_keys existing_keys rest (new_keys @ [key_info]) skipped)"

text \<open>
  \<open>save_keys_to_db\<close>: the value returned, or the exception that leaves the function, and the
  database afterwards. The exception of \<open>get_existing_keys\<close> is raised outside the \<open>try\<close>.
\<close>

definition save_keys_to_db ::
  "sqlite_env \<Rightarrow> database \<Rightarrow> descriptor list \<Rightarrow> (db_error + (nat \<times> nat)) \<times> database" where
  "save_keys_to_db env db keys =
     (if keys = [] then (Inr (0, 0), db)
      else
        (let t = setup_database db in
         case get_existing_keys env (Some t) keys of
           Inl e \<Rightarrow> (Inl e, Some t)
         | Inr existing_keys \<Rightarrow>
             (case separate_keys existing_keys keys [] 0 of
                (new_keys, skipped) \<Rightarrow>
                  (case batch_insert env t new_keys of
                     Inr (t', count) \<Rightarrow> (Inr (count, skipped), Some t')
                   | Inl e \<Rightarrow>
                       (case fallback_inserts env 0 t 0 new_keys of
                          (t', count) \<Rightarrow> (Inr (count, skipped), Some t'))))))"

text \<open>The descriptor a row stores: its three text columns.\<close>

definition row_descriptor :: "s3_row \<Rightarrow> descriptor" where
  "row_descriptor r = \<lparr>bucket = bucket r, key = key r, last_modified = last_modified r\<rparr>"

text \<open>A sequence of calls, each with the engine behaviour it meets.\<close>

fun save_calls :: "database \<Rightarrow> (sqlite_env \<times> descriptor list) list \<Rightarrow> database" where
  "save_calls db [] = db"
| "save_calls db ((env, keys) # calls) = save_calls (snd (save_keys_to_db env db keys)) calls"

text \<open>The uniqueness invariant of the store.\<close>

definition unique_identities :: "database \<Rightarrow> bool" where
  "unique_identities db = distinct (map identity (setup_database db))"

text \<open>
  \<open>search_keys\<close> runs \<open>SELECT bucket, key, last_modified FROM s3_keys WHERE key LIKE ?\<close> with
  the parameter \<open>%query%\<close>. The engine's \<open>LIKE\<close>: \<open>%\<close> in the pattern stands for any run of
  characters, \<open>_\<close> for any one character, and every other character matches itself, the ASCII
  letters without regard to case: the engine compares characters after mapping the upper-case
  ASCII letters to lower case through a table, \<open>sqlite_lower\<close> here.
\<close>

definition sqlite_lower :: "char \<Rightarrow> char" where
  "sqlite_lower c =
     (case map_of (zip ''ABCDEFGHIJKLMNOPQRSTUVWXYZ'' ''abcdefghijklmnopqrstuvwxyz'') c of
        Some l \<Rightarrow> l
      | None \<Rightarrow> c)"

fun sqlite_like :: "string \<Rightarrow> string \<Rightarrow> bool" where
  "sqlite_like [] s = (s = [])"
| "sqlite_like (p # ps) [] = (p = CHR ''%'' \<and> sqlite_like ps [])"
| "sqlite_like (p # ps) (c # cs) =
     (if p = CHR ''%'' then sqlite_like ps (c # cs) \<or> sqlite_like (p # ps) cs
      else (p = CHR ''_'' \<or> sqlite_lower p = sqlite_lower c) \<and> sqlite_like ps cs)"



section \<open>The listing source: \<open>s3/operations.py\<close>\<close>

text \<open>
  An entry of \<open>page["Contents"]\<close> with its key and the ISO text of its modification time.
  Asking the paginator for the next page gives a page, with or without \<open>Contents\<close>, or raises.
  The client answers \<open>list_buckets\<close> with the bucket names or raises, and \<open>paginate\<close> gives
  the pages of one bucket.
\<close>

record s3_object =
  Key :: string
  LastModified :: string

datatype page_result = Page "s3_object list option" | PageError

datatype s3_error = ClientError

record s3_client =
  list_buckets :: "s3_error + string list"
  paginate :: "string \<Rightarrow> page_result list"

definition make_descriptor :: "string \<Rightarrow> s3_object \<Rightarrow> descriptor" where
  "make_descriptor bucket_name obj =
     \<lparr>bucket = bucket_name, key = Key obj, last_modified = LastModified obj\<rparr>"

text \<open>
  The loop over the objects of one page: the batches yielded, and the buffer that remains.
\<close>

fun page_contents ::
  "int \<Rightarrow> string \<Rightarrow> s3_object list \<Rightarrow> descriptor list \<Rightarrow> descriptor list list \<times> descriptor list" where
  "page_contents batch_size bucket_name [] batch = ([], batch)"
| "page_contents batch_size bucket_name (obj # objs) batch =
     (let batch' = batch @ [make_descriptor bucket_name obj] in
      if int (length batch') \<ge> batch_size
      then (case page_contents batch_size bucket_name objs [] of
              (yielded, rest) \<Rightarrow> (batch' # yielded, rest))
      else page_contents batch_size bucket_name objs batch')"

text \<open>
  The loop over the pages of one bucket, with both ends of the \<open>try\<close>: after the last page
  and in the \<open>except\<close> branch a non-empty buffer is yielded.
\<close>

fun bucket_pages ::
  "int \<Rightarrow> string \<Rightarrow> page_result list \<Rightarrow> descriptor list \<Rightarrow> descriptor list list" where
  "bucket_pages batch_size bucket_name [] batch = (if batch \<noteq> [] then [batch] else [])"
| "bucket_pages batch_size bucket_name (PageError # pages) batch =
     (if batch \<noteq> [] then [batch] else [])"
| "bucket_pages batch_size bucket_name (Page None # pages) batch =
     bucket_pages batch_size bucket_name pages batch"
| "bucket_pages batch_size bucket_name (Page (Some objs) # pages) batch =
     (case page_contents batch_size bucket_name objs batch of
        (yielded, batch') \<Rightarrow> yielded @ bucket_pages batch_size bucket_name pages batch')"

definition list_bucket_keys :: "s3_client \<Rightarrow> int \<Rightarrow> string \<Rightarrow> descriptor list list" where
  "list_bucket_keys s3 batch_size bucket_name =
     bucket_pages batch_size bucket_name (paginate s3 bucket_name) []"

text \<open>
  \<open>list_s3_keys\<close>: all the batches the generator yields, or the exception of \<open>list_buckets\<close>.
  An absent or empty \<open>bucket_name\<close> is false in the test \<open>if bucket_name\<close>.
\<close>

definition list_s3_keys ::
  "s3_client \<Rightarrow> string option \<Rightarrow> int \<Rightarrow> s3_error + descriptor list list" where
  "list_s3_keys s3 bucket_name batch_size =
     (case (case bucket_name of
              None \<Rightarrow> list_buckets s3
            | Some n \<Rightarrow> if n \<noteq> [] then Inr [n] else list_buckets s3) of
        Inl e \<Rightarrow> Inl e
      | Inr buckets \<Rightarrow> Inr (concat (map (list_bucket_keys s3 batch_size) buckets)))"

text \<open>
  What a listing offers: the descriptors of the pages in listing order, up to the first page
  request that raises; and whether a listing ends without raising.
\<close>

fun listed_descriptors :: "string \<Rightarrow> page_result list \<Rightarrow> descriptor list" where
  "listed_descriptors bucket_name [] = []"
| "listed_descriptors bucket_name (PageError # pages) = []"
| "listed_descriptors bucket_name (Page None # pages) = listed_descriptors bucket_name pages"
| "listed_descriptors bucket_name (Page (Some objs) # pages) =
     map (make_descriptor bucket_name) objs @ listed_descriptors bucket_name pages"

definition without_error :: "page_result list \<Rightarrow> bool" where
  "without_error pages = (PageError \<notin> set pages)"

text \<open>Cutting a list into consecutive pieces of \<open>n\<close> elements, the last one possibly shorter.\<close>

function chunks :: "nat \<Rightarrow> 'a list \<Rightarrow> 'a list list" where
  "chunks n xs = (if n = 0 \<or> xs = [] then [] else take n xs # chunks n (drop n xs))"
  by pat_completeness auto
termination
  by (relation "measure (\<lambda>(n, xs). length xs)") auto

declare chunks.simps [simp del]

section \<open>Concrete inputs\<close>

text \<open>
  The default ceiling of the engine with an engine without faults, and \<open>n\<close> descriptors of
  one bucket with pairwise distinct keys (of at most 1017 characters for the numbers below
  17000).
\<close>

definition default_env :: sqlite_env where
  "default_env = \<lparr>max_variable_number = 32766, executemany_fault = False,
                   execute_fault = (\<lambda>i. False)\<rparr>"

definition numbered_key :: "nat \<Rightarrow> string" where
  "numbered_key i =
     replicate (Suc (i div 1000)) CHR ''a'' @ replicate (Suc (i mod 1000)) CHR ''b''"

definition numbered_keys :: "nat \<Rightarrow> descriptor list" where
  "numbered_keys n =
     map (\<lambda>i. \<lparr>bucket = ''bucket'', key = numbered_key i,
                last_modified = ''2025-01-01T00:00:00+00:00''\<rparr>) [0..<n]"

section \<open>Properties of the store\<close>

lemma separate_keys_eq:
  "separate_keys ex keys new_keys skipped =
     (new_keys @ filter (\<lambda>k. identity k \<notin> ex) keys,
      skipped + length (filter (\<lambda>k. identity k \<in> ex) keys))"
  by (induction keys arbitrary: new_keys skipped) (simp_all add: identity_def)

lemma insert_row_Inr:
  "insert_row t d = Inr t' \<longleftrightarrow>
     identity d \<notin> set (map identity t) \<and>
     t' = t @ [\<lparr>bucket = bucket d, key = key d, last_modified = last_modified d,
                 row_id = next_row_id t\<rparr>]"
  by (auto simp: insert_row_def)

lemma insert_row_Inl:
  "insert_row t d = Inl e \<longleftrightarrow> identity d \<in> set (map identity t) \<and> e = IntegrityError"
  by (auto simp: insert_row_def)

lemma identity_new_row [simp]:
  "identity \<lparr>bucket = b, key = k, last_modified = m, row_id = n\<rparr> = (b, k)"
  by (simp add: identity_def)

lemma executemany_rows_Inr:
  "executemany_rows t ds = Inr t' \<Longrightarrow>
     \<exists>added. t' = t @ added \<and> map row_descriptor added = ds \<and>
       map identity added = map identity ds \<and>
       distinct (map identity ds) \<and> set (map identity ds) \<inter> set (map identity t) = {}"
proof (induction ds arbitrary: t)
  case Nil
  then show ?case by simp
next
  case (Cons d ds)
  from Cons.prems obtain t1 where i: "insert_row t d = Inr t1" and r: "executemany_rows t1 ds = Inr t'"
    by (auto split: sum.splits)
  from i have fresh: "identity d \<notin> set (map identity t)"
    and t1: "t1 = t @ [\<lparr>bucket = bucket d, key = key d, last_modified = last_modified d,
                 row_id = next_row_id t\<rparr>]"
    by (simp_all add: insert_row_Inr)
  from Cons.IH [OF r] obtain added where a: "t' = t1 @ added" "map identity added = map identity ds"
    "distinct (map identity ds)" "set (map identity ds) \<inter> set (map identity t1) = {}"
    and rd: "map row_descriptor added = ds"
    by blast
  have idd: "identity d = (bucket d, key d)" by (simp add: identity_def)
  show ?case
  proof (intro exI conjI)
    show "t' = t @ (\<lparr>bucket = bucket d, key = key d, last_modified = last_modified d,
                 row_id = next_row_id t\<rparr> # added)" using a(1) t1 by simp
    show "map identity (\<lparr>bucket = bucket d, key = key d, last_modified = last_modified d,
                 row_id = next_row_id t\<rparr> # added) = map identity (d # ds)"
      using a(2) idd by simp
    show "map row_descriptor (\<lparr>bucket = bucket d, key = key d, last_modified = last_modified d,
                 row_id = next_row_id t\<rparr> # added) = d # ds"
      using rd by (simp add: row_descriptor_def)
    show "distinct (map identity (d # ds))" using a(3,4) t1 idd by auto
    show "set (map identity (d # ds)) \<inter> set (map identity t) = {}"
      using a(4) t1 fresh by auto
  qed
qed

lemma executemany_rows_succeeds:
  "distinct (map identity ds) \<Longrightarrow> set (map identity ds) \<inter> set (map identity t) = {} \<Longrightarrow>
     \<exists>t'. executemany_rows t ds = Inr t'"
proof (induction ds arbitrary: t)
  case Nil
  then show ?case by simp
next
  case (Cons d ds)
  let ?r = "\<lparr>bucket = bucket d, key = key d, last_modified = last_modified d,
                 row_id = next_row_id t\<rparr>"
  have idd: "identity d = (bucket d, key d)" by (simp add: identity_def)
  from Cons.prems have i: "insert_row t d = Inr (t @ [?r])"
    by (simp add: insert_row_Inr)
  have "set (map identity ds) \<inter> set (map identity (t @ [?r])) = {}"
    using Cons.prems idd by auto
  with Cons.IH [of "t @ [?r]"] Cons.prems(1) obtain t' where "executemany_rows (t @ [?r]) ds = Inr t'"
    by auto
  with i show ?case by simp
qed

lemma fallback_inserts_frame:
  "fallback_inserts env i t c ds = (t', c') \<Longrightarrow>
     \<exists>added. t' = t @ added \<and> c' = c + length added \<and>
       distinct (map identity added) \<and>
       set (map identity added) \<subseteq> set (map identity ds) \<and>
       set (map identity added) \<inter> set (map identity t) = {}"
proof (induction ds arbitrary: i t c)
  case Nil
  then show ?case by simp
next
  case (Cons d ds)
  let ?r = "\<lparr>bucket = bucket d, key = key d, last_modified = last_modified d,
                 row_id = next_row_id t\<rparr>"
  have idd: "identity d = (bucket d, key d)" by (simp add: identity_def)
  show ?case
  proof (cases "execute_fault env i \<or> identity d \<in> set (map identity t)")
    case True
    then have "execute_fault env i \<or> insert_row t d = Inl IntegrityError"
      by (auto simp: insert_row_def)
    then have "fallback_inserts env (Suc i) t c ds = (t', c')"
      using Cons.prems by (auto split: if_splits)
    from Cons.IH [OF this] show ?thesis by auto
  next
    case False
    then have "\<not> execute_fault env i \<and> insert_row t d = Inr (t @ [?r])"
      by (auto simp: insert_row_def)
    then have "fallback_inserts env (Suc i) (t @ [?r]) (c + 1) ds = (t', c')"
      using Cons.prems by (auto split: if_splits)
    from Cons.IH [OF this] obtain added where a: "t' = (t @ [?r]) @ added" "c' = c + 1 + length added"
      "distinct (map identity added)" "set (map identity added) \<subseteq> set (map identity ds)"
      "set (map identity added) \<inter> set (map identity (t @ [?r])) = {}"
      by blast
    show ?thesis
    proof (intro exI conjI)
      show "t' = t @ (?r # added)" using a(1) by simp
      show "c' = c + length (?r # added)" using a(2) by simp
      show "distinct (map identity (?r # added))" using a(3,5) by auto
      show "set (map identity (?r # added)) \<subseteq> set (map identity (d # ds))" using a(4) idd by auto
      show "set (map identity (?r # added)) \<inter> set (map identity t) = {}" using a(5) False idd by auto
    qed
  qed
qed


lemma length_flat_params: "length (flat_params ps) = 2 * length ps"
  by (induction ps) (auto simp: flat_params_def)

lemma get_existing_keys_table:
  "keys \<noteq> [] \<Longrightarrow>
     get_existing_keys env (Some t) keys =
       (if max_variable_number env < 2 * length keys then Inl TooManyVariables
        else Inr (set (map identity keys) \<inter> set (map identity t)))"
  by (auto simp: get_existing_keys_def Let_def length_flat_params)

lemma fallback_inserts_rows:
  "fallback_inserts env i t c ds = (t', c') \<Longrightarrow>
     \<exists>added. t' = t @ added \<and> set (map row_descriptor added) \<subseteq> set ds"
proof (induction ds arbitrary: i t c)
  case Nil
  then show ?case by simp
next
  case (Cons d ds)
  let ?r = "\<lparr>bucket = bucket d, key = key d, last_modified = last_modified d,
                 row_id = next_row_id t\<rparr>"
  have rd: "row_descriptor ?r = d" by (simp add: row_descriptor_def)
  show ?case
  proof (cases "execute_fault env i \<or> identity d \<in> set (map identity t)")
    case True
    then have "execute_fault env i \<or> insert_row t d = Inl IntegrityError"
      by (auto simp: insert_row_def)
    then have "fallback_inserts env (Suc i) t c ds = (t', c')"
      using Cons.prems by (auto split: if_splits)
    from Cons.IH [OF this] show ?thesis by auto
  next
    case False
    then have "\<not> execute_fault env i \<and> insert_row t d = Inr (t @ [?r])"
      by (auto simp: insert_row_def)
    then have "fallback_inserts env (Suc i) (t @ [?r]) (c + 1) ds = (t', c')"
      using Cons.prems by (auto split: if_splits)
    from Cons.IH [OF this] obtain added where a: "t' = (t @ [?r]) @ added"
      "set (map row_descriptor added) \<subseteq> set ds"
      by blast
    show ?thesis
    proof (intro exI conjI)
      show "t' = t @ (?r # added)" using a(1) by simp
      show "set (map row_descriptor (?r # added)) \<subseteq> set (d # ds)" using a(2) rd by auto
    qed
  qed
qed

lemma fallback_inserts_persists:
  "fallback_inserts env i t c ds = (t', c') \<Longrightarrow> j < length ds \<Longrightarrow>
     \<not> execute_fault env (i + j) \<Longrightarrow> identity (ds ! j) \<in> set (map identity t')"
proof (induction ds arbitrary: i t c j)
  case Nil
  then show ?case by simp
next
  case (Cons d ds)
  let ?r = "\<lparr>bucket = bucket d, key = key d, last_modified = last_modified d,
                 row_id = next_row_id t\<rparr>"
  obtain t1 c1 where step: "fallback_inserts env (Suc i) t1 c1 ds = (t', c')"
    and t1: "t1 = t \<or> t1 = t @ [?r]"
    and ins: "execute_fault env i \<or> identity d \<in> set (map identity t1)"
  proof (cases "execute_fault env i \<or> identity d \<in> set (map identity t)")
    case True
    then have "execute_fault env i \<or> insert_row t d = Inl IntegrityError"
      by (auto simp: insert_row_def)
    then have "fallback_inserts env (Suc i) t c ds = (t', c')"
      using Cons.prems(1) by (auto split: if_splits)
    with True that show ?thesis by blast
  next
    case False
    then have "\<not> execute_fault env i \<and> insert_row t d = Inr (t @ [?r])"
      by (auto simp: insert_row_def)
    then have "fallback_inserts env (Suc i) (t @ [?r]) (c + 1) ds = (t', c')"
      using Cons.prems(1) by (auto split: if_splits)
    moreover have "identity d \<in> set (map identity (t @ [?r]))" by (simp add: identity_def)
    ultimately show ?thesis using that by blast
  qed
  from fallback_inserts_frame [OF step] obtain added where t': "t' = t1 @ added" by blast
  show ?case
  proof (cases j)
    case 0
    with Cons.prems(3) ins t' show ?thesis by auto
  next
    case (Suc k)
    with Cons.prems have "k < length ds" "\<not> execute_fault env (Suc i + k)" by simp_all
    from Cons.IH [OF step this] Suc show ?thesis by simp
  qed
qed

lemma batch_insert_Inr:
  assumes "batch_insert env t new_keys = Inr (t', c)"
  shows "\<exists>added. t' = t @ added \<and> c = length added \<and>
       map row_descriptor added = new_keys \<and>
       distinct (map identity added) \<and> set (map identity added) \<inter> set (map identity t) = {}"
proof (cases "new_keys = []")
  case True
  with assms show ?thesis by (simp add: batch_insert_def)
next
  case False
  with assms have nf: "\<not> executemany_fault env" and
    ex: "executemany_rows t new_keys = Inr t'" and
    c: "c = (if length t' - length t > 0 then length t' - length t else length new_keys)"
    by (auto simp: batch_insert_def Let_def split: if_splits sum.splits)
  from executemany_rows_Inr [OF ex] obtain added where a: "t' = t @ added"
    "map row_descriptor added = new_keys" "map identity added = map identity new_keys"
    "distinct (map identity new_keys)" "set (map identity new_keys) \<inter> set (map identity t) = {}"
    by blast
  from a(2) have "length added = length new_keys" by (metis length_map)
  with c a(1) have c': "c = length added" by simp
  have d: "distinct (map identity added)" using a(4) by (simp only: a(3))
  have i: "set (map identity added) \<inter> set (map identity t) = {}" using a(5) by (simp only: a(3))
  from a(1) c' a(2) d i show ?thesis by blast
qed

lemma batch_insert_succeeds:
  assumes "\<not> executemany_fault env" "distinct (map identity new_keys)"
    "set (map identity new_keys) \<inter> set (map identity t) = {}"
  shows "\<exists>r. batch_insert env t new_keys = Inr r"
proof -
  from executemany_rows_succeeds [OF assms(2,3)] obtain t' where "executemany_rows t new_keys = Inr t'"
    by blast
  with assms(1) show ?thesis by (simp add: batch_insert_def Let_def)
qed

lemma save_keys_to_db_empty: "save_keys_to_db env db [] = (Inr (0, 0), db)"
  by (simp add: save_keys_to_db_def)

lemma save_keys_to_db_too_many:
  "keys \<noteq> [] \<Longrightarrow> max_variable_number env < 2 * length keys \<Longrightarrow>
     save_keys_to_db env db keys = (Inl TooManyVariables, Some (setup_database db))"
  by (simp add: save_keys_to_db_def get_existing_keys_table)

lemma save_keys_to_db_batch:
  assumes "keys \<noteq> []" "2 * length keys \<le> max_variable_number env"
    "batch_insert env (setup_database db)
       (filter (\<lambda>k. identity k \<notin> set (map identity (setup_database db))) keys) = Inr (t', c)"
  shows "save_keys_to_db env db keys =
     (Inr (c, length (filter (\<lambda>k. identity k \<in> set (map identity (setup_database db))) keys)), Some t')"
proof -
  let ?t = "setup_database db"
  let ?ex = "set (map identity keys) \<inter> set (map identity ?t)"
  have f1: "filter (\<lambda>k. identity k \<notin> ?ex) keys = filter (\<lambda>k. identity k \<notin> set (map identity ?t)) keys"
    by (rule filter_cong) auto
  have f2: "filter (\<lambda>k. identity k \<in> ?ex) keys = filter (\<lambda>k. identity k \<in> set (map identity ?t)) keys"
    by (rule filter_cong) auto
  have g: "get_existing_keys env (Some ?t) keys = Inr ?ex"
    using assms(1,2) by (simp add: get_existing_keys_table)
  have s: "separate_keys ?ex keys [] 0 =
      (filter (\<lambda>k. identity k \<notin> set (map identity ?t)) keys,
       length (filter (\<lambda>k. identity k \<in> set (map identity ?t)) keys))"
    by (simp only: separate_keys_eq f1 f2) simp
  show ?thesis
    using assms(1,3) by (simp add: save_keys_to_db_def Let_def g s del: set_map)
qed

lemma save_keys_to_db_fallback:
  assumes "keys \<noteq> []" "2 * length keys \<le> max_variable_number env"
    "batch_insert env (setup_database db)
       (filter (\<lambda>k. identity k \<notin> set (map identity (setup_database db))) keys) = Inl e"
    "fallback_inserts env 0 (setup_database db) 0
       (filter (\<lambda>k. identity k \<notin> set (map identity (setup_database db))) keys) = (t', c)"
  shows "save_keys_to_db env db keys =
     (Inr (c, length (filter (\<lambda>k. identity k \<in> set (map identity (setup_database db))) keys)), Some t')"
proof -
  let ?t = "setup_database db"
  let ?ex = "set (map identity keys) \<inter> set (map identity ?t)"
  have f1: "filter (\<lambda>k. identity k \<notin> ?ex) keys = filter (\<lambda>k. identity k \<notin> set (map identity ?t)) keys"
    by (rule filter_cong) auto
  have f2: "filter (\<lambda>k. identity k \<in> ?ex) keys = filter (\<lambda>k. identity k \<in> set (map identity ?t)) keys"
    by (rule filter_cong) auto
  have g: "get_existing_keys env (Some ?t) keys = Inr ?ex"
    using assms(1,2) by (simp add: get_existing_keys_table)
  have s: "separate_keys ?ex keys [] 0 =
      (filter (\<lambda>k. identity k \<notin> set (map identity ?t)) keys,
       length (filter (\<lambda>k. identity k \<in> set (map identity ?t)) keys))"
    by (simp only: separate_keys_eq f1 f2) simp
  show ?thesis
    using assms(1,3,4) by (simp add: save_keys_to_db_def Let_def g s del: set_map)
qed

lemma save_keys_to_db_frame:
  "\<exists>added. setup_database (snd (save_keys_to_db env db keys)) = setup_database db @ added \<and>
     distinct (map identity added) \<and>
     set (map identity added) \<inter> set (map identity (setup_database db)) = {}"
proof -
  let ?t = "setup_database db"
  let ?new = "filter (\<lambda>k. identity k \<notin> set (map identity ?t)) keys"
  have triv: "setup_database (Some ?t) = ?t @ []" by (simp add: setup_database_def)
  consider "keys = []" | "keys \<noteq> []" "max_variable_number env < 2 * length keys"
    | "keys \<noteq> []" "2 * length keys \<le> max_variable_number env"
    by linarith
  then show ?thesis
  proof cases
    case 1
    then show ?thesis by (simp add: save_keys_to_db_empty)
  next
    case 2
    then show ?thesis using triv by (simp add: save_keys_to_db_too_many)
  next
    case 3
    show ?thesis
    proof (cases "batch_insert env ?t ?new")
      case (Inr r)
      obtain t' c where r: "r = (t', c)" by (cases r)
      from batch_insert_Inr [OF Inr [unfolded r]] obtain added where
        "t' = ?t @ added" "distinct (map identity added)"
        "set (map identity added) \<inter> set (map identity ?t) = {}" by blast
      moreover have "setup_database (snd (save_keys_to_db env db keys)) = t'"
        using save_keys_to_db_batch [OF 3 Inr [unfolded r]] by (simp add: setup_database_def)
      ultimately show ?thesis by blast
    next
      case (Inl e)
      obtain t' c where f: "fallback_inserts env 0 ?t 0 ?new = (t', c)"
        by (cases "fallback_inserts env 0 ?t 0 ?new")
      from fallback_inserts_frame [OF f] obtain added where
        "t' = ?t @ added" "distinct (map identity added)"
        "set (map identity added) \<inter> set (map identity ?t) = {}" by blast
      moreover have "setup_database (snd (save_keys_to_db env db keys)) = t'"
        using save_keys_to_db_fallback [OF 3 Inl f] by (simp add: setup_database_def)
      ultimately show ?thesis by blast
    qed
  qed
qed

lemma save_keys_to_db_unique:
  assumes "unique_identities db"
  shows "unique_identities (snd (save_keys_to_db env db keys))"
proof -
  from save_keys_to_db_frame [of env db keys] obtain added where
    a: "setup_database (snd (save_keys_to_db env db keys)) = setup_database db @ added"
    "distinct (map identity added)"
    "set (map identity added) \<inter> set (map identity (setup_database db)) = {}"
    by blast
  from assms have "distinct (map identity (setup_database db))"
    by (simp add: unique_identities_def)
  with a show ?thesis by (auto simp: unique_identities_def)
qed

lemma identity_row_descriptor [simp]: "identity (row_descriptor r) = identity r"
  by (simp add: identity_def row_descriptor_def)

lemma map_identity_row_descriptor:
  "map row_descriptor added = ds \<Longrightarrow> map identity added = map identity ds"
  by (induction added arbitrary: ds) auto

lemma save_keys_to_db_table:
  "snd (save_keys_to_db env db keys) =
     (if keys = [] then db else Some (setup_database (snd (save_keys_to_db env db keys))))"
  by (auto simp: save_keys_to_db_def Let_def setup_database_def split: sum.splits prod.splits)

lemma length_numbered_keys: "length (numbered_keys n) = n"
  by (simp add: numbered_keys_def)

lemma inj_numbered_key: "inj numbered_key"
proof (rule injI)
  fix i j assume e: "numbered_key i = numbered_key j"
  have tw: "takeWhile (\<lambda>c. c = CHR ''a'') (numbered_key n) =
      replicate (Suc (n div 1000)) CHR ''a''" for n
    unfolding numbered_key_def by (subst takeWhile_append2) auto
  from e have "length (takeWhile (\<lambda>c. c = CHR ''a'') (numbered_key i)) =
      length (takeWhile (\<lambda>c. c = CHR ''a'') (numbered_key j))" by simp
  then have d: "i div 1000 = j div 1000" by (simp only: tw length_replicate nat.inject)
  from e have "length (numbered_key i) = length (numbered_key j)" by simp
  with d have m: "i mod 1000 = j mod 1000" by (simp add: numbered_key_def)
  from d m show "i = j" by (metis div_mult_mod_eq)
qed

lemma distinct_numbered_keys: "distinct (map identity (numbered_keys n))"
proof -
  have "inj_on (\<lambda>i. (''bucket'', numbered_key i)) A" for A :: "nat set"
    by (rule inj_onI) (use inj_numbered_key in \<open>auto dest: injD\<close>)
  then show ?thesis
    by (simp add: numbered_keys_def identity_def distinct_map comp_def)
qed

lemma save_keys_to_db_batch_path:
  assumes "keys \<noteq> []" "distinct (map identity keys)"
    "2 * length keys \<le> max_variable_number env" "\<not> executemany_fault env"
  shows "\<exists>added.
     save_keys_to_db env db keys =
       (Inr (length (filter (\<lambda>k. identity k \<notin> set (map identity (setup_database db))) keys),
             length (filter (\<lambda>k. identity k \<in> set (map identity (setup_database db))) keys)),
        Some (setup_database db @ added)) \<and>
     map row_descriptor added =
       filter (\<lambda>k. identity k \<notin> set (map identity (setup_database db))) keys"
proof -
  let ?t = "setup_database db"
  let ?new = "filter (\<lambda>k. identity k \<notin> set (map identity ?t)) keys"
  have d: "distinct (map identity ?new)"
    using assms(2) by (rule distinct_map_filter)
  have i: "set (map identity ?new) \<inter> set (map identity ?t) = {}"
    by (fastforce simp: image_iff)
  from batch_insert_succeeds [OF assms(4) d i] obtain t' c where
    b: "batch_insert env ?t ?new = Inr (t', c)" by (metis surj_pair)
  from batch_insert_Inr [OF b] obtain added where
    a: "t' = ?t @ added" "c = length added" "map row_descriptor added = ?new"
    by blast
  from a(3) have "length added = length ?new" by (metis length_map)
  with save_keys_to_db_batch [OF assms(1,3) b] a show ?thesis by auto
qed

lemma executemany_rows_Inl: "executemany_rows t ds = Inl e \<Longrightarrow> e = IntegrityError"
  by (induction ds arbitrary: t) (auto simp: insert_row_Inl split: sum.splits)

lemma distinct_map_filter_le_1:
  "distinct (map f xs) \<Longrightarrow> length (filter (\<lambda>a. f a = x) xs) \<le> 1"
proof (induction xs)
  case Nil
  then show ?case by simp
next
  case (Cons a xs)
  show ?case
  proof (cases "f a = x")
    case True
    with Cons.prems have "filter (\<lambda>a. f a = x) xs = []"
      by (force simp: filter_empty_conv image_iff)
    with True show ?thesis by simp
  next
    case False
    with Cons show ?thesis by simp
  qed
qed

lemma find_filter_weaker:
  "(\<And>k. P k \<Longrightarrow> Q k) \<Longrightarrow> find P (filter Q xs) = find P xs"
  by (induction xs) auto

lemma fallback_inserts_first_occurrence:
  assumes "fallback_inserts env i t c ds = (t', c')"
    and "\<And>n. \<not> execute_fault env n"
    and "x \<notin> set (map identity t)"
    and "find (\<lambda>d. identity d = x) ds = Some d0"
  shows "map row_descriptor (filter (\<lambda>r. identity r = x) t') = [d0]"
  using assms(1,3,4)
proof (induction ds arbitrary: i t c)
  case Nil
  then show ?case by simp
next
  case (Cons d ds)
  let ?r = "\<lparr>bucket = bucket d, key = key d, last_modified = last_modified d,
                 row_id = next_row_id t\<rparr>"
  have idr: "identity ?r = identity d" by (simp add: identity_def)
  have rd: "row_descriptor ?r = d" by (simp add: row_descriptor_def)
  have nf: "\<not> execute_fault env i" by (rule assms(2))
  have none: "filter (\<lambda>r. identity r = x) t = []"
    using Cons.prems(2) by (force simp: filter_empty_conv image_iff)
  show ?case
  proof (cases "identity d = x")
    case True
    with Cons.prems(3) have d0: "d0 = d" by simp
    from True Cons.prems(2) have "insert_row t d = Inr (t @ [?r])"
      by (simp add: insert_row_Inr)
    with nf Cons.prems(1) have step: "fallback_inserts env (Suc i) (t @ [?r]) (c + 1) ds = (t', c')"
      by simp
    from fallback_inserts_frame [OF step] obtain added where
      a: "t' = (t @ [?r]) @ added"
      "set (map identity added) \<inter> set (map identity (t @ [?r])) = {}"
      by blast
    from a(2) True idr have "filter (\<lambda>r. identity r = x) added = []"
      by (force simp: filter_empty_conv image_iff)
    with a(1) none True idr rd d0 show ?thesis by simp
  next
    case False
    with Cons.prems(3) have f: "find (\<lambda>d. identity d = x) ds = Some d0" by simp
    show ?thesis
    proof (cases "identity d \<in> set (map identity t)")
      case True
      then have "insert_row t d = Inl IntegrityError" by (simp add: insert_row_Inl)
      with nf Cons.prems(1) have step: "fallback_inserts env (Suc i) t c ds = (t', c')"
        by simp
      from Cons.IH [OF step Cons.prems(2) f] show ?thesis .
    next
      case nin: False
      then have "insert_row t d = Inr (t @ [?r])" by (simp add: insert_row_Inr)
      with nf Cons.prems(1) have step: "fallback_inserts env (Suc i) (t @ [?r]) (c + 1) ds = (t', c')"
        by simp
      have "x \<notin> set (map identity (t @ [?r]))"
        using Cons.prems(2) False idr by auto
      from Cons.IH [OF step this f] show ?thesis .
    qed
  qed
qed

lemma save_keys_to_db_returns:
  assumes "keys \<noteq> []" "2 * length keys \<le> max_variable_number env"
  shows "\<exists>inserted added.
     save_keys_to_db env db keys =
       (Inr (inserted,
             length (filter (\<lambda>k. identity k \<in> set (map identity (setup_database db))) keys)),
        Some (setup_database db @ added))"
proof -
  let ?t = "setup_database db"
  let ?new = "filter (\<lambda>k. identity k \<notin> set (map identity ?t)) keys"
  show ?thesis
  proof (cases "batch_insert env ?t ?new")
    case (Inr r)
    obtain t' c where r: "r = (t', c)" by (cases r)
    from batch_insert_Inr [OF Inr [unfolded r]] obtain added where "t' = ?t @ added" by blast
    with save_keys_to_db_batch [OF assms Inr [unfolded r]] show ?thesis by blast
  next
    case (Inl e)
    obtain t' c where f: "fallback_inserts env 0 ?t 0 ?new = (t', c)"
      by (cases "fallback_inserts env 0 ?t 0 ?new")
    from fallback_inserts_frame [OF f] obtain added where "t' = ?t @ added" by blast
    with save_keys_to_db_fallback [OF assms Inl f] show ?thesis by blast
  qed
qed

subsection \<open>Uniqueness of identities\<close>

text \<open>
  Claim C1. Uniqueness invariant: starting from a store that has no table yet, or from a
  store with at most one row for each identity, every sequence of calls of
  \<open>save_keys_to_db\<close>, whatever the inputs and whatever the engine does in each call, ends in a
  store with at most one row for each \<open>(bucket, key)\<close> pair. Every prefix of a sequence of
  calls is a sequence of calls, so this holds for each store on the way.
\<close>

theorem save_calls_unique_identities:
  "unique_identities db \<Longrightarrow> unique_identities (save_calls db calls)"
proof (induction calls arbitrary: db)
  case Nil
  then show ?case by simp
next
  case (Cons call calls)
  obtain env keys where call: "call = (env, keys)" by (cases call)
  from Cons.prems have "unique_identities (snd (save_keys_to_db env db keys))"
    by (rule save_keys_to_db_unique)
  from Cons.IH [OF this] call show ?case by simp
qed

theorem save_calls_unique_identities_witness:
  "unique_identities None \<and>
   unique_identities (save_calls None
     [(default_env, [\<lparr>bucket = ''b'', key = ''x'', last_modified = ''1''\<rparr>,
                     \<lparr>bucket = ''b'', key = ''x'', last_modified = ''2''\<rparr>]),
      (default_env, [\<lparr>bucket = ''b'', key = ''x'', last_modified = ''3''\<rparr>,
                     \<lparr>bucket = ''b'', key = ''y'', last_modified = ''3''\<rparr>])])"
proof -
  have h: "unique_identities None"
    by (simp add: unique_identities_def setup_database_def)
  from save_calls_unique_identities [OF h] h show ?thesis by blast
qed

subsection \<open>Stored rows are never changed\<close>

text \<open>
  Claim C9. Frame property of re-sync: a call of \<open>save_keys_to_db\<close> on a store with the
  rows \<open>t\<close> leaves these rows in place and only appends rows, and for every identity that
  was stored before the call the rows with that identity are the same afterwards, with the
  same \<open>last_modified\<close>, whatever the input says about that identity: insert if absent,
  never an update.
\<close>

theorem save_keys_to_db_keeps_stored_rows:
  "\<exists>added. snd (save_keys_to_db env (Some t) keys) = Some (t @ added) \<and>
     (\<forall>r \<in> set t. filter (\<lambda>x. identity x = identity r) (t @ added) =
                     filter (\<lambda>x. identity x = identity r) t)"
proof -
  from save_keys_to_db_frame [of env "Some t" keys] obtain added where
    a: "setup_database (snd (save_keys_to_db env (Some t) keys)) = t @ added"
    and d: "set (map identity added) \<inter> set (map identity t) = {}"
    by (auto simp: setup_database_def)
  have s: "snd (save_keys_to_db env (Some t) keys) = Some (t @ added)"
  proof (cases "keys = []")
    case True
    with a show ?thesis by (simp add: save_keys_to_db_empty setup_database_def)
  next
    case False
    with save_keys_to_db_table [of env "Some t" keys] a show ?thesis by simp
  qed
  have "filter (\<lambda>x. identity x = identity r) added = []" if "r \<in> set t" for r
    using d that by (auto simp: filter_empty_conv)
  with s show ?thesis by auto
qed

text \<open>
  A stored key offered again with a later \<open>last_modified\<close>, next to a new key: the stored
  row keeps its time, the new key is appended.
\<close>

theorem save_keys_to_db_keeps_stored_rows_witness:
  "snd (save_keys_to_db default_env
      (Some [\<lparr>bucket = ''b'', key = ''x'', last_modified = ''2024-01-01'', row_id = 1\<rparr>])
      [\<lparr>bucket = ''b'', key = ''x'', last_modified = ''2025-06-30''\<rparr>,
       \<lparr>bucket = ''b'', key = ''y'', last_modified = ''2025-06-30''\<rparr>]) =
    Some [\<lparr>bucket = ''b'', key = ''x'', last_modified = ''2024-01-01'', row_id = 1\<rparr>,
          \<lparr>bucket = ''b'', key = ''y'', last_modified = ''2025-06-30'', row_id = 2\<rparr>]"
  using save_keys_to_db_keeps_stored_rows [of default_env
      "[\<lparr>bucket = ''b'', key = ''x'', last_modified = ''2024-01-01'', row_id = 1\<rparr>]"
      "[\<lparr>bucket = ''b'', key = ''x'', last_modified = ''2025-06-30''\<rparr>,
       \<lparr>bucket = ''b'', key = ''y'', last_modified = ''2025-06-30''\<rparr>]"]
  by (simp add: save_keys_to_db_def setup_database_def get_existing_keys_def flat_params_def
      identity_def default_env_def batch_insert_def insert_row_def next_row_id_def Let_def)

subsection \<open>The fallback path\<close>

text \<open>
  Claim C4. Fallback correctness: when the existence check has answered and the atomic batch
  insert of the new descriptors fails, for whatever reason, \<open>save_keys_to_db\<close> returns
  normally; the store is the table as it was before the batch (the rollback) followed by the
  rows \<open>added\<close> by the individual inserts, which are committed; the count returned is exactly
  the number of rows added, so a failed individual insert is not counted; every row added
  holds one of the new descriptors; and every new descriptor whose individual insert the
  engine does not fail has its identity in the store afterwards.
\<close>

theorem save_keys_to_db_fallback_count:
  assumes "keys \<noteq> []"
    and "get_existing_keys env (Some (setup_database db)) keys = Inr existing_keys"
    and "separate_keys existing_keys keys [] 0 = (new_keys, skipped)"
    and "batch_insert env (setup_database db) new_keys = Inl e"
  shows "\<exists>added.
     save_keys_to_db env db keys =
       (Inr (length added, skipped), Some (setup_database db @ added)) \<and>
     fallback_inserts env 0 (setup_database db) 0 new_keys =
       (setup_database db @ added, length added) \<and>
     set (map row_descriptor added) \<subseteq> set new_keys \<and>
     distinct (map identity added) \<and>
     set (map identity added) \<inter> set (map identity (setup_database db)) = {} \<and>
     (\<forall>j < length new_keys. \<not> execute_fault env j \<longrightarrow>
        identity (new_keys ! j) \<in> set (map identity (setup_database db @ added)))"
proof -
  let ?t = "setup_database db"
  obtain t' c where f: "fallback_inserts env 0 ?t 0 new_keys = (t', c)"
    by (cases "fallback_inserts env 0 ?t 0 new_keys")
  from fallback_inserts_frame [OF f] obtain added where
    a: "t' = ?t @ added" "c = 0 + length added" "distinct (map identity added)"
    "set (map identity added) \<inter> set (map identity ?t) = {}"
    by blast
  from fallback_inserts_rows [OF f] a(1) have rows: "set (map row_descriptor added) \<subseteq> set new_keys"
    by auto
  have pers: "identity (new_keys ! j) \<in> set (map identity (?t @ added))"
    if "j < length new_keys" "\<not> execute_fault env j" for j
    using fallback_inserts_persists [OF f that(1)] that(2) a(1) by simp
  have "save_keys_to_db env db keys = (Inr (c, skipped), Some t')"
    using assms f by (simp add: save_keys_to_db_def Let_def)
  with a f rows pers show ?thesis by auto
qed

text \<open>
  The case of the unit test \<open>test_save_keys_to_db_with_exception\<close>: the batch statement
  raises, both keys are saved one by one.
\<close>

theorem save_keys_to_db_fallback_count_witness:
  "get_existing_keys (default_env\<lparr>executemany_fault := True\<rparr>) (Some (setup_database None))
      [\<lparr>bucket = ''test-bucket'', key = ''key1.txt'', last_modified = ''now''\<rparr>,
       \<lparr>bucket = ''test-bucket'', key = ''key2.txt'', last_modified = ''now''\<rparr>] = Inr {} \<and>
   batch_insert (default_env\<lparr>executemany_fault := True\<rparr>) (setup_database None)
      [\<lparr>bucket = ''test-bucket'', key = ''key1.txt'', last_modified = ''now''\<rparr>,
       \<lparr>bucket = ''test-bucket'', key = ''key2.txt'', last_modified = ''now''\<rparr>] = Inl EngineFault \<and>
   save_keys_to_db (default_env\<lparr>executemany_fault := True\<rparr>) None
      [\<lparr>bucket = ''test-bucket'', key = ''key1.txt'', last_modified = ''now''\<rparr>,
       \<lparr>bucket = ''test-bucket'', key = ''key2.txt'', last_modified = ''now''\<rparr>] =
     (Inr (2, 0),
      Some [\<lparr>bucket = ''test-bucket'', key = ''key1.txt'', last_modified = ''now'', row_id = 1\<rparr>,
            \<lparr>bucket = ''test-bucket'', key = ''key2.txt'', last_modified = ''now'', row_id = 2\<rparr>])"
proof -
  let ?env = "default_env\<lparr>executemany_fault := True\<rparr>"
  let ?keys = "[\<lparr>bucket = ''test-bucket'', key = ''key1.txt'', last_modified = ''now''\<rparr>,
       \<lparr>bucket = ''test-bucket'', key = ''key2.txt'', last_modified = ''now''\<rparr>]"
  have h1: "?keys \<noteq> []" by simp
  have h2: "get_existing_keys ?env (Some (setup_database None)) ?keys = Inr {}"
    by (simp add: get_existing_keys_table setup_database_def default_env_def)
  have h3: "separate_keys {} ?keys [] 0 = (?keys, 0)" by simp
  have h4: "batch_insert ?env (setup_database None) ?keys = Inl EngineFault"
    by (simp add: batch_insert_def default_env_def)
  from save_keys_to_db_fallback_count [OF h1 h2 h3 h4] h2 h4 show ?thesis
    by (simp add: setup_database_def default_env_def insert_row_def identity_def next_row_id_def)
qed

subsection \<open>The existence check and the parameter ceiling\<close>

text \<open>
  Claim C5, as amended. \<open>get_existing_keys\<close> binds two parameters for each candidate in a
  single statement. On a store whose table exists, a candidate list of at most half the
  engine's ceiling of bound parameters gets exactly the set of input \<open>(bucket, key)\<close> pairs
  that are stored (the empty set for the empty list); a longer list makes the statement
  exceed the ceiling, and the call raises instead of answering.
\<close>

theorem get_existing_keys_within_ceiling:
  "get_existing_keys env (Some t) keys =
     (if 2 * length keys \<le> max_variable_number env
      then Inr (set (map identity keys) \<inter> set (map identity t))
      else Inl TooManyVariables)"
proof (cases "keys = []")
  case True
  then show ?thesis by (simp add: get_existing_keys_def)
next
  case False
  then show ?thesis by (simp add: get_existing_keys_table not_less)
qed

text \<open>
  The claim as it was stated fails: with the default ceiling of 32766 parameters, 16384
  candidates need 32768, and the call raises. The function does not create the table
  either, so on a store that was never created a candidate makes it raise.
\<close>

theorem get_existing_keys_ceiling_counterexample:
  "get_existing_keys default_env (Some []) (numbered_keys 16384) = Inl TooManyVariables \<and>
   get_existing_keys default_env None [\<lparr>bucket = ''b'', key = ''k'', last_modified = ''t''\<rparr>] =
     Inl NoSuchTable"
proof -
  have "numbered_keys 16384 \<noteq> []"
    using length_numbered_keys [of 16384] by auto
  then have "get_existing_keys default_env (Some []) (numbered_keys 16384) = Inl TooManyVariables"
    by (simp add: get_existing_keys_table length_numbered_keys default_env_def)
  moreover have "get_existing_keys default_env None
      [\<lparr>bucket = ''b'', key = ''k'', last_modified = ''t''\<rparr>] = Inl NoSuchTable"
    by (simp add: get_existing_keys_def)
  ultimately show ?thesis by simp
qed

text \<open>The candidates of the unit test \<open>test_get_existing_keys\<close>: two stored, two new.\<close>

theorem get_existing_keys_within_ceiling_witness:
  "get_existing_keys default_env
     (Some [\<lparr>bucket = ''test-bucket-1'', key = ''folder1/test1.txt'', last_modified = ''t'', row_id = 1\<rparr>,
            \<lparr>bucket = ''test-bucket-2'', key = ''folderA/testA.txt'', last_modified = ''t'', row_id = 2\<rparr>,
            \<lparr>bucket = ''test-bucket-2'', key = ''folderB/testB.txt'', last_modified = ''t'', row_id = 3\<rparr>])
     [\<lparr>bucket = ''test-bucket-1'', key = ''folder1/test1.txt'', last_modified = ''t''\<rparr>,
      \<lparr>bucket = ''test-bucket-2'', key = ''folderA/testA.txt'', last_modified = ''t''\<rparr>,
      \<lparr>bucket = ''test-bucket-1'', key = ''new/key1.txt'', last_modified = ''t''\<rparr>,
      \<lparr>bucket = ''test-bucket-3'', key = ''new/key2.txt'', last_modified = ''t''\<rparr>] =
   Inr {(''test-bucket-1'', ''folder1/test1.txt''), (''test-bucket-2'', ''folderA/testA.txt'')}"
  using get_existing_keys_within_ceiling [of default_env
     "[\<lparr>bucket = ''test-bucket-1'', key = ''folder1/test1.txt'', last_modified = ''t'', row_id = 1\<rparr>,
            \<lparr>bucket = ''test-bucket-2'', key = ''folderA/testA.txt'', last_modified = ''t'', row_id = 2\<rparr>,
            \<lparr>bucket = ''test-bucket-2'', key = ''folderB/testB.txt'', last_modified = ''t'', row_id = 3\<rparr>]"
     "[\<lparr>bucket = ''test-bucket-1'', key = ''folder1/test1.txt'', last_modified = ''t''\<rparr>,
      \<lparr>bucket = ''test-bucket-2'', key = ''folderA/testA.txt'', last_modified = ''t''\<rparr>,
      \<lparr>bucket = ''test-bucket-1'', key = ''new/key1.txt'', last_modified = ''t''\<rparr>,
      \<lparr>bucket = ''test-bucket-3'', key = ''new/key2.txt'', last_modified = ''t''\<rparr>]"]
  by (auto simp: default_env_def identity_def)

subsection \<open>Idempotence\<close>



subsection \<open>The partition into new and skipped descriptors\<close>

text \<open>
  Claim C3, as amended. Save partition postcondition: for every non-empty descriptor list
  with pairwise distinct identities that is no longer than half the engine's ceiling of
  bound parameters, \<open>save_keys_to_db\<close> returns normally with, as \<open>skipped_count\<close>, the
  number of descriptors whose identity is stored; and on the successful batch path
  \<open>inserted_count\<close> is the number of the others, the rows appended hold exactly those other
  descriptors, in input order, and the identities stored afterwards are the union of the
  identities stored before and the identities of the input.
\<close>

theorem save_keys_to_db_partition:
  assumes "keys \<noteq> []"
    and "distinct (map identity keys)"
    and "2 * length keys \<le> max_variable_number env"
  shows "\<exists>inserted added.
     save_keys_to_db env db keys =
       (Inr (inserted,
             length (filter (\<lambda>k. identity k \<in> set (map identity (setup_database db))) keys)),
        Some (setup_database db @ added)) \<and>
     (\<not> executemany_fault env \<longrightarrow>
        inserted =
          length (filter (\<lambda>k. identity k \<notin> set (map identity (setup_database db))) keys) \<and>
        map row_descriptor added =
          filter (\<lambda>k. identity k \<notin> set (map identity (setup_database db))) keys \<and>
        set (map identity (setup_database db @ added)) =
          set (map identity (setup_database db)) \<union> set (map identity keys))"
proof (cases "executemany_fault env")
  case True
  with save_keys_to_db_returns [OF assms(1,3), of db] show ?thesis by auto
next
  case False
  let ?t = "setup_database db"
  let ?new = "filter (\<lambda>k. identity k \<notin> set (map identity ?t)) keys"
  from save_keys_to_db_batch_path [OF assms False, of db] obtain added where
    s: "save_keys_to_db env db keys =
       (Inr (length ?new, length (filter (\<lambda>k. identity k \<in> set (map identity ?t)) keys)),
        Some (?t @ added))"
    and r: "map row_descriptor added = ?new"
    by blast
  from r have "map identity added = map identity ?new"
    by (rule map_identity_row_descriptor)
  then have "set (map identity added) = set (map identity ?new)" by simp
  then have "set (map identity (?t @ added)) = set (map identity ?t) \<union> set (map identity keys)"
    by auto
  with s r show ?thesis by blast
qed

text \<open>
  The claim as it was stated fails for a long list: 16384 descriptors with pairwise distinct
  identities make the existence check raise under the default ceiling, and the exception
  leaves \<open>save_keys_to_db\<close>: no counts are returned and nothing is inserted.
\<close>

theorem save_keys_to_db_partition_counterexample:
  "numbered_keys 16384 \<noteq> [] \<and> distinct (map identity (numbered_keys 16384)) \<and>
   save_keys_to_db default_env None (numbered_keys 16384) = (Inl TooManyVariables, Some [])"
proof -
  have n: "numbered_keys 16384 \<noteq> []"
    using length_numbered_keys [of 16384] by auto
  have m: "max_variable_number default_env < 2 * length (numbered_keys 16384)"
    by (simp add: length_numbered_keys default_env_def)
  from save_keys_to_db_too_many [OF n m, of None] n distinct_numbered_keys [of 16384]
  show ?thesis by (simp add: setup_database_def)
qed

text \<open>
  The example of the claim: stored \<open>{A, B}\<close>, input \<open>{A, C, D}\<close>, result \<open>(2, 1)\<close>, and
  the store holds \<open>{A, B, C, D}\<close>.
\<close>

theorem save_keys_to_db_partition_witness:
  "distinct (map identity
      [\<lparr>bucket = ''b'', key = ''A'', last_modified = ''t2''\<rparr>,
       \<lparr>bucket = ''b'', key = ''C'', last_modified = ''t2''\<rparr>,
       \<lparr>bucket = ''b'', key = ''D'', last_modified = ''t2''\<rparr>]) \<and>
   save_keys_to_db default_env
      (Some [\<lparr>bucket = ''b'', key = ''A'', last_modified = ''t1'', row_id = 1\<rparr>,
             \<lparr>bucket = ''b'', key = ''B'', last_modified = ''t1'', row_id = 2\<rparr>])
      [\<lparr>bucket = ''b'', key = ''A'', last_modified = ''t2''\<rparr>,
       \<lparr>bucket = ''b'', key = ''C'', last_modified = ''t2''\<rparr>,
       \<lparr>bucket = ''b'', key = ''D'', last_modified = ''t2''\<rparr>] =
     (Inr (2, 1),
      Some [\<lparr>bucket = ''b'', key = ''A'', last_modified = ''t1'', row_id = 1\<rparr>,
            \<lparr>bucket = ''b'', key = ''B'', last_modified = ''t1'', row_id = 2\<rparr>,
            \<lparr>bucket = ''b'', key = ''C'', last_modified = ''t2'', row_id = 3\<rparr>,
            \<lparr>bucket = ''b'', key = ''D'', last_modified = ''t2'', row_id = 4\<rparr>])"
proof -
  let ?keys = "[\<lparr>bucket = ''b'', key = ''A'', last_modified = ''t2''\<rparr>,
       \<lparr>bucket = ''b'', key = ''C'', last_modified = ''t2''\<rparr>,
       \<lparr>bucket = ''b'', key = ''D'', last_modified = ''t2''\<rparr>]"
  let ?db = "Some [\<lparr>bucket = ''b'', key = ''A'', last_modified = ''t1'', row_id = 1\<rparr>,
             \<lparr>bucket = ''b'', key = ''B'', last_modified = ''t1'', row_id = 2\<rparr>]"
  have h1: "?keys \<noteq> []" by simp
  have h2: "distinct (map identity ?keys)" by (simp add: identity_def)
  have h3: "2 * length ?keys \<le> max_variable_number default_env" by (simp add: default_env_def)
  have e: "save_keys_to_db default_env ?db ?keys =
     (Inr (2, 1),
      Some [\<lparr>bucket = ''b'', key = ''A'', last_modified = ''t1'', row_id = 1\<rparr>,
            \<lparr>bucket = ''b'', key = ''B'', last_modified = ''t1'', row_id = 2\<rparr>,
            \<lparr>bucket = ''b'', key = ''C'', last_modified = ''t2'', row_id = 3\<rparr>,
            \<lparr>bucket = ''b'', key = ''D'', last_modified = ''t2'', row_id = 4\<rparr>])"
    using save_keys_to_db_partition [OF h1 h2 h3, of ?db]
    by (simp add: save_keys_to_db_def setup_database_def get_existing_keys_def flat_params_def
        identity_def default_env_def batch_insert_def insert_row_def next_row_id_def Let_def)
  from h2 e show ?thesis by simp
qed

subsection \<open>Duplicate identities within one input\<close>

text \<open>
  Claim C10, as amended. Let an input no longer than half the engine's ceiling of bound
  parameters contain two or more descriptors with an identity \<open>x\<close> that is not stored,
  \<open>d0\<close> being the first of them, and let the engine raise nothing but uniqueness violations.
  Then all descriptors with identity \<open>x\<close> are classified as new; the batch insert fails with
  the uniqueness violation; \<open>save_keys_to_db\<close> returns normally with the number of rows
  added by the fallback loop as its count; the store, rolled back and then extended by these
  rows, holds exactly one row with identity \<open>x\<close>, the one of \<open>d0\<close>; and the uniqueness
  invariant is preserved.
\<close>

theorem save_keys_to_db_duplicate_identities:
  assumes "find (\<lambda>d. identity d = x) keys = Some d0"
    and "2 \<le> length (filter (\<lambda>d. identity d = x) keys)"
    and "x \<notin> set (map identity (setup_database db))"
    and "2 * length keys \<le> max_variable_number env"
    and "\<not> executemany_fault env"
    and "\<forall>n. \<not> execute_fault env n"
  shows "\<exists>existing_keys new_keys skipped added.
     get_existing_keys env (Some (setup_database db)) keys = Inr existing_keys \<and>
     separate_keys existing_keys keys [] 0 = (new_keys, skipped) \<and>
     filter (\<lambda>d. identity d = x) new_keys = filter (\<lambda>d. identity d = x) keys \<and>
     batch_insert env (setup_database db) new_keys = Inl IntegrityError \<and>
     save_keys_to_db env db keys =
       (Inr (length added, skipped), Some (setup_database db @ added)) \<and>
     map row_descriptor (filter (\<lambda>r. identity r = x) (setup_database db @ added)) = [d0] \<and>
     (unique_identities db \<longrightarrow> unique_identities (Some (setup_database db @ added)))"
proof -
  let ?t = "setup_database db"
  let ?ex = "set (map identity keys) \<inter> set (map identity ?t)"
  let ?new = "filter (\<lambda>k. identity k \<notin> set (map identity ?t)) keys"
  let ?skipped = "length (filter (\<lambda>k. identity k \<in> set (map identity ?t)) keys)"
  from assms(2) have ne: "keys \<noteq> []" by auto
  have f1: "filter (\<lambda>k. identity k \<notin> ?ex) keys = ?new"
    by (rule filter_cong) auto
  have f2: "filter (\<lambda>k. identity k \<in> ?ex) keys =
      filter (\<lambda>k. identity k \<in> set (map identity ?t)) keys"
    by (rule filter_cong) auto
  have g: "get_existing_keys env (Some ?t) keys = Inr ?ex"
    using ne assms(4) by (simp add: get_existing_keys_table)
  have s: "separate_keys ?ex keys [] 0 = (?new, ?skipped)"
    by (simp only: separate_keys_eq f1 f2) simp
  have same: "filter (\<lambda>d. identity d = x) ?new = filter (\<lambda>d. identity d = x) keys"
    unfolding filter_filter using assms(3) by (intro filter_cong) auto
  have nd: "\<not> distinct (map identity ?new)"
  proof
    assume "distinct (map identity ?new)"
    from distinct_map_filter_le_1 [OF this, of x] same assms(2) show False by simp
  qed
  have new_ne: "?new \<noteq> []"
  proof
    assume "?new = []"
    then have "filter (\<lambda>d. identity d = x) ?new = []" by (simp only: filter.simps)
    with same assms(2) show False by simp
  qed
  have ex: "executemany_rows ?t ?new = Inl IntegrityError"
  proof (cases "executemany_rows ?t ?new")
    case (Inl e)
    with executemany_rows_Inl [OF Inl] show ?thesis by simp
  next
    case (Inr t')
    from executemany_rows_Inr [OF Inr] nd show ?thesis by blast
  qed
  have b: "batch_insert env ?t ?new = Inl IntegrityError"
    using new_ne assms(5) ex by (simp add: batch_insert_def)
  obtain t' c where f: "fallback_inserts env 0 ?t 0 ?new = (t', c)"
    by (cases "fallback_inserts env 0 ?t 0 ?new")
  from fallback_inserts_frame [OF f] obtain added where
    a: "t' = ?t @ added" "c = 0 + length added" "distinct (map identity added)"
    "set (map identity added) \<inter> set (map identity ?t) = {}"
    by blast
  have sv: "save_keys_to_db env db keys = (Inr (length added, ?skipped), Some (?t @ added))"
    using save_keys_to_db_fallback [OF ne assms(4) b f] a(1,2) by simp
  have "find (\<lambda>d. identity d = x) ?new = find (\<lambda>d. identity d = x) keys"
    by (rule find_filter_weaker) (use assms(3) in simp)
  with assms(1) have fnd: "find (\<lambda>d. identity d = x) ?new = Some d0" by simp
  have nofault: "\<not> execute_fault env n" for n using assms(6) by simp
  have one: "map row_descriptor (filter (\<lambda>r. identity r = x) (?t @ added)) = [d0]"
    using fallback_inserts_first_occurrence [OF f nofault assms(3) fnd] a(1) by simp
  have u: "unique_identities db \<longrightarrow> unique_identities (Some (?t @ added))"
    using a(3,4) by (auto simp: unique_identities_def setup_database_def)
  show ?thesis
  proof (intro exI conjI)
    show "get_existing_keys env (Some ?t) keys = Inr ?ex" by (rule g)
    show "separate_keys ?ex keys [] 0 = (?new, ?skipped)" by (rule s)
    show "filter (\<lambda>d. identity d = x) ?new = filter (\<lambda>d. identity d = x) keys" by (rule same)
    show "batch_insert env ?t ?new = Inl IntegrityError" by (rule b)
    show "save_keys_to_db env db keys = (Inr (length added, ?skipped), Some (?t @ added))"
      by (rule sv)
    show "map row_descriptor (filter (\<lambda>r. identity r = x) (?t @ added)) = [d0]" by (rule one)
    show "unique_identities db \<longrightarrow> unique_identities (Some (?t @ added))" by (rule u)
  qed
qed

text \<open>
  The claim as it was stated fails for a long input: 16384 copies of one new descriptor make
  the existence check raise under the default ceiling, the exception reaches the caller and
  no row is stored.
\<close>

theorem save_keys_to_db_duplicate_identities_counterexample:
  "save_keys_to_db default_env None
      (replicate 16384 \<lparr>bucket = ''b'', key = ''x'', last_modified = ''t''\<rparr>) =
     (Inl TooManyVariables, Some [])"
proof -
  let ?keys = "replicate 16384 \<lparr>bucket = ''b'', key = ''x'', last_modified = ''t''\<rparr>"
  have n: "?keys \<noteq> []" by simp
  have m: "max_variable_number default_env < 2 * length ?keys"
    by (simp add: default_env_def)
  from save_keys_to_db_too_many [OF n m, of None] show ?thesis
    by (simp add: setup_database_def)
qed

text \<open>Three descriptors, the first and the third with the same identity, on a fresh store.\<close>

theorem save_keys_to_db_duplicate_identities_witness:
  "find (\<lambda>d. identity d = (''b'', ''x''))
      [\<lparr>bucket = ''b'', key = ''x'', last_modified = ''first''\<rparr>,
       \<lparr>bucket = ''b'', key = ''y'', last_modified = ''other''\<rparr>,
       \<lparr>bucket = ''b'', key = ''x'', last_modified = ''second''\<rparr>] =
     Some \<lparr>bucket = ''b'', key = ''x'', last_modified = ''first''\<rparr> \<and>
   batch_insert default_env []
      [\<lparr>bucket = ''b'', key = ''x'', last_modified = ''first''\<rparr>,
       \<lparr>bucket = ''b'', key = ''y'', last_modified = ''other''\<rparr>,
       \<lparr>bucket = ''b'', key = ''x'', last_modified = ''second''\<rparr>] = Inl IntegrityError \<and>
   save_keys_to_db default_env None
      [\<lparr>bucket = ''b'', key = ''x'', last_modified = ''first''\<rparr>,
       \<lparr>bucket = ''b'', key = ''y'', last_modified = ''other''\<rparr>,
       \<lparr>bucket = ''b'', key = ''x'', last_modified = ''second''\<rparr>] =
     (Inr (2, 0),
      Some [\<lparr>bucket = ''b'', key = ''x'', last_modified = ''first'', row_id = 1\<rparr>,
            \<lparr>bucket = ''b'', key = ''y'', last_modified = ''other'', row_id = 2\<rparr>])"
proof -
  let ?keys = "[\<lparr>bucket = ''b'', key = ''x'', last_modified = ''first''\<rparr>,
       \<lparr>bucket = ''b'', key = ''y'', last_modified = ''other''\<rparr>,
       \<lparr>bucket = ''b'', key = ''x'', last_modified = ''second''\<rparr>]"
  have h1: "find (\<lambda>d. identity d = (''b'', ''x'')) ?keys =
      Some \<lparr>bucket = ''b'', key = ''x'', last_modified = ''first''\<rparr>"
    by (simp add: identity_def)
  have h2: "2 \<le> length (filter (\<lambda>d. identity d = (''b'', ''x'')) ?keys)"
    by (simp add: identity_def)
  have h3: "(''b'', ''x'') \<notin> set (map identity (setup_database None))"
    by (simp add: setup_database_def)
  have h4: "2 * length ?keys \<le> max_variable_number default_env"
    by (simp add: default_env_def)
  have h5: "\<not> executemany_fault default_env" by (simp add: default_env_def)
  have h6: "\<forall>n. \<not> execute_fault default_env n" by (simp add: default_env_def)
  have b: "batch_insert default_env [] ?keys = Inl IntegrityError"
    by (simp add: batch_insert_def default_env_def insert_row_def identity_def)
  have e: "save_keys_to_db default_env None ?keys =
     (Inr (2, 0),
      Some [\<lparr>bucket = ''b'', key = ''x'', last_modified = ''first'', row_id = 1\<rparr>,
            \<lparr>bucket = ''b'', key = ''y'', last_modified = ''other'', row_id = 2\<rparr>])"
    using save_keys_to_db_duplicate_identities [OF h1 h2 h3 h4 h5 h6]
    by (simp add: save_keys_to_db_def setup_database_def get_existing_keys_def flat_params_def
        identity_def default_env_def batch_insert_def insert_row_def next_row_id_def Let_def)
  from h1 b e show ?thesis by simp
qed

section \<open>Properties of the search\<close>

lemma sqlite_like_percent [simp]: "sqlite_like [CHR ''%''] s"
  by (induction s) simp_all





subsection \<open>Search semantics\<close>




section \<open>Properties of the listing source\<close>

lemma ceil_div_Suc: "0 < (n::nat) \<Longrightarrow> (Suc k + n - 1) div n = Suc (k div n)"
  using div_add_self2 [of n k] by simp

lemma ceil_div_lt:
  assumes "0 < (n::nat)" "Suc i < (m + n - 1) div n"
  shows "i * n + n \<le> m"
proof (cases m)
  case 0
  with assms show ?thesis by simp
next
  case (Suc k)
  with assms ceil_div_Suc [of n k] have "Suc i \<le> k div n" by simp
  with assms(1) have "Suc i * n \<le> k" by (simp add: less_eq_div_iff_mult_less_eq)
  with Suc show ?thesis by simp
qed

lemma ceil_div_last:
  assumes "0 < (n::nat)" "Suc i = (m + n - 1) div n"
  shows "min n (m - i * n) = (if m mod n = 0 then n else m mod n)"
proof (cases m)
  case 0
  with assms show ?thesis by simp
next
  case (Suc k)
  with assms ceil_div_Suc [of n k] have i: "i = k div n" by simp
  have "k - i * n = k mod n" unfolding i by (simp add: minus_div_mult_eq_mod)
  moreover have "i * n \<le> k" unfolding i by simp
  ultimately have d: "m - i * n = Suc (k mod n)" using Suc by simp
  have lt: "k mod n < n" using assms(1) by simp
  show ?thesis
  proof (cases "Suc (k mod n) = n")
    case True
    with d Suc show ?thesis by (simp add: mod_Suc)
  next
    case False
    with lt have "Suc (k mod n) < n" by simp
    with d Suc False show ?thesis by (simp add: mod_Suc)
  qed
qed

lemma chunks_Nil [simp]: "chunks n [] = []"
  by (simp add: chunks.simps)

lemma chunks_step: "0 < n \<Longrightarrow> xs \<noteq> [] \<Longrightarrow> chunks n xs = take n xs # chunks n (drop n xs)"
  by (subst chunks.simps) simp

lemma chunks_short: "0 < n \<Longrightarrow> xs \<noteq> [] \<Longrightarrow> length xs \<le> n \<Longrightarrow> chunks n xs = [xs]"
  by (simp add: chunks_step)

lemma chunks_full: "0 < n \<Longrightarrow> length xs = n \<Longrightarrow> chunks n (xs @ ys) = xs # chunks n ys"
  by (subst chunks_step) auto

lemma concat_chunks: "0 < n \<Longrightarrow> concat (chunks n xs) = xs"
proof (induction n xs rule: chunks.induct)
  case (1 n xs)
  show ?case
  proof (cases "xs = []")
    case True
    then show ?thesis by simp
  next
    case False
    with 1 show ?thesis by (simp add: chunks_step)
  qed
qed

lemma length_chunks: "0 < n \<Longrightarrow> length (chunks n xs) = (length xs + n - 1) div n"
proof (induction n xs rule: chunks.induct)
  case (1 n xs)
  show ?case
  proof (cases xs)
    case Nil
    with 1(2) show ?thesis by simp
  next
    case (Cons x ys)
    then have ne: "xs \<noteq> []" by simp
    from 1 ne have IH: "length (chunks n (drop n xs)) = (length xs - n + n - 1) div n"
      by simp
    have goal: "(length xs + n - 1) div n = Suc (length ys div n)"
      using ceil_div_Suc [OF 1(2), of "length ys"] Cons by simp
    show ?thesis
    proof (cases "length xs \<le> n")
      case True
      with Cons have "length ys < n" by simp
      with goal True ne 1(2) show ?thesis by (simp add: chunks_short)
    next
      case False
      then have "length xs - n + n - 1 = length ys" using Cons by simp
      moreover from False Cons have "n \<le> length ys" by simp
      then have "length ys div n = Suc ((length ys - n) div n)"
        using 1(2) by (simp add: le_div_geq)
      moreover have "(length ys - n + n - 1) = length ys - 1" using \<open>n \<le> length ys\<close> by simp
      ultimately show ?thesis using IH goal ne 1(2)
        by (simp add: chunks_step)
    qed
  qed
qed

lemma nth_chunks:
  "0 < n \<Longrightarrow> i < length (chunks n xs) \<Longrightarrow> chunks n xs ! i = take n (drop (i * n) xs)"
proof (induction n xs arbitrary: i rule: chunks.induct)
  case (1 n xs)
  show ?case
  proof (cases "xs = []")
    case True
    with 1(3) show ?thesis by simp
  next
    case False
    show ?thesis
    proof (cases i)
      case 0
      with False 1(2) show ?thesis by (simp add: chunks_step)
    next
      case (Suc j)
      with 1(3) False 1(2) have "j < length (chunks n (drop n xs))" by (simp add: chunks_step)
      with 1(1) [of j] False 1(2) have "chunks n (drop n xs) ! j = take n (drop (j * n) (drop n xs))"
        by simp
      with Suc False 1(2) show ?thesis by (simp add: chunks_step add.commute)
    qed
  qed
qed

lemma length_nth_chunks:
  assumes "0 < n" "i < length (chunks n xs)"
  shows "length (chunks n xs ! i) =
     (if Suc i < length (chunks n xs) then n
      else if length xs mod n = 0 then n else length xs mod n)"
proof -
  let ?N = "length xs"
  have len: "length (chunks n xs ! i) = min n (?N - i * n)"
    using assms by (simp add: nth_chunks min.commute)
  show ?thesis
  proof (cases "Suc i < length (chunks n xs)")
    case True
    then have "Suc i < (?N + n - 1) div n" using assms(1) by (simp add: length_chunks)
    from ceil_div_lt [OF assms(1) this] have "i * n + n \<le> ?N" .
    with len True show ?thesis by simp
  next
    case False
    with assms(2) have "Suc i = (?N + n - 1) div n" using assms(1) by (simp add: length_chunks)
    from ceil_div_last [OF assms(1) this] len False show ?thesis by simp
  qed
qed

lemma page_contents_chunks:
  assumes "0 < batch_size" "length batch < nat batch_size"
    "page_contents batch_size bucket_name objs batch = (yielded, rest)"
  shows "length rest < nat batch_size \<and>
     chunks (nat batch_size) (batch @ map (make_descriptor bucket_name) objs @ tl_descs) =
       yielded @ chunks (nat batch_size) (rest @ tl_descs)"
  using assms(2,3)
proof (induction objs arbitrary: batch yielded rest)
  case Nil
  then show ?case by simp
next
  case (Cons obj objs)
  let ?b = "batch @ [make_descriptor bucket_name obj]"
  let ?n = "nat batch_size"
  have pos: "0 < ?n" using assms(1) by simp
  show ?case
  proof (cases "int (length ?b) \<ge> batch_size")
    case True
    with Cons.prems(1) have full: "length ?b = ?n" by simp
    obtain ys r where pc: "page_contents batch_size bucket_name objs [] = (ys, r)"
      by (cases "page_contents batch_size bucket_name objs []")
    with True Cons.prems(2) have res: "yielded = ?b # ys" "rest = r"
      by (simp_all add: Let_def)
    from pos have "length ([]::descriptor list) < ?n" by simp
    from Cons.IH [OF this pc] have
      IH: "length r < ?n"
      "chunks ?n (map (make_descriptor bucket_name) objs @ tl_descs) = ys @ chunks ?n (r @ tl_descs)"
      by simp_all
    have "chunks ?n (?b @ map (make_descriptor bucket_name) objs @ tl_descs) =
        ?b # chunks ?n (map (make_descriptor bucket_name) objs @ tl_descs)"
      by (rule chunks_full [OF pos full])
    with IH res show ?thesis by simp
  next
    case False
    then have short: "length ?b < ?n" by simp
    from False Cons.prems(2) have pc: "page_contents batch_size bucket_name objs ?b = (yielded, rest)"
      by (simp add: Let_def)
    from Cons.IH [OF short pc] show ?thesis by simp
  qed
qed

lemma bucket_pages_chunks:
  "length batch < nat batch_size \<Longrightarrow>
     bucket_pages batch_size bucket_name pages batch =
       chunks (nat batch_size) (batch @ listed_descriptors bucket_name pages)"
proof (induction batch_size bucket_name pages batch rule: bucket_pages.induct)
  case (1 batch_size bucket_name batch)
  then show ?case by (cases "batch = []") (simp_all add: chunks_short)
next
  case (2 batch_size bucket_name pages batch)
  then show ?case by (cases "batch = []") (simp_all add: chunks_short)
next
  case (3 batch_size bucket_name pages batch)
  then show ?case by simp
next
  case (4 batch_size bucket_name objs pages batch)
  obtain yielded batch' where
    pc: "page_contents batch_size bucket_name objs batch = (yielded, batch')"
    by (cases "page_contents batch_size bucket_name objs batch")
  from "4.prems" have pos: "0 < batch_size" by simp
  from page_contents_chunks [OF pos "4.prems" pc, of "listed_descriptors bucket_name pages"]
  have short: "length batch' < nat batch_size"
    and eq: "chunks (nat batch_size)
        (batch @ map (make_descriptor bucket_name) objs @ listed_descriptors bucket_name pages) =
      yielded @ chunks (nat batch_size) (batch' @ listed_descriptors bucket_name pages)"
    by simp_all
  from "4.IH" [OF pc [symmetric] short] pc eq show ?case by simp
qed

lemma list_bucket_keys_chunks:
  "0 < batch_size \<Longrightarrow>
     list_bucket_keys s3 batch_size bucket_name =
       chunks (nat batch_size) (listed_descriptors bucket_name (paginate s3 bucket_name))"
  using bucket_pages_chunks [of "[]" batch_size bucket_name "paginate s3 bucket_name"]
  by (simp add: list_bucket_keys_def)

lemma page_contents_concat:
  "page_contents batch_size bucket_name objs batch = (yielded, rest) \<Longrightarrow>
     concat yielded @ rest = batch @ map (make_descriptor bucket_name) objs"
proof (induction objs arbitrary: batch yielded rest)
  case Nil
  then show ?case by simp
next
  case (Cons obj objs)
  let ?b = "batch @ [make_descriptor bucket_name obj]"
  show ?case
  proof (cases "int (length ?b) \<ge> batch_size")
    case True
    obtain ys r where pc: "page_contents batch_size bucket_name objs [] = (ys, r)"
      by (cases "page_contents batch_size bucket_name objs []")
    with True Cons.prems have "yielded = ?b # ys" "rest = r" by (simp_all add: Let_def)
    with Cons.IH [OF pc] show ?thesis by simp
  next
    case False
    with Cons.prems have "page_contents batch_size bucket_name objs ?b = (yielded, rest)"
      by (simp add: Let_def)
    from Cons.IH [OF this] show ?thesis by simp
  qed
qed

lemma bucket_pages_concat:
  "concat (bucket_pages batch_size bucket_name pages batch) =
     batch @ listed_descriptors bucket_name pages"
proof (induction batch_size bucket_name pages batch rule: bucket_pages.induct)
  case (4 batch_size bucket_name objs pages batch)
  obtain yielded batch' where
    pc: "page_contents batch_size bucket_name objs batch = (yielded, batch')"
    by (cases "page_contents batch_size bucket_name objs batch")
  from "4.IH" [OF pc [symmetric]] page_contents_concat [OF pc] pc show ?case
    by simp
qed simp_all

lemma bucket_pages_stops_at_error:
  "bucket_pages batch_size bucket_name (pages @ PageError # rest) batch =
     bucket_pages batch_size bucket_name pages batch"
proof (induction batch_size bucket_name pages batch rule: bucket_pages.induct)
  case (4 batch_size bucket_name objs pages batch)
  obtain yielded batch' where
    pc: "page_contents batch_size bucket_name objs batch = (yielded, batch')"
    by (cases "page_contents batch_size bucket_name objs batch")
  from "4.IH" [OF pc [symmetric]] pc show ?case by simp
qed simp_all

lemma list_s3_keys_named:
  "bucket_name \<noteq> [] \<Longrightarrow>
     list_s3_keys s3 (Some bucket_name) batch_size =
       Inr (list_bucket_keys s3 batch_size bucket_name)"
  by (simp add: list_s3_keys_def)

lemma list_s3_keys_all:
  "list_buckets s3 = Inr names \<Longrightarrow>
     list_s3_keys s3 None batch_size =
       Inr (concat (map (list_bucket_keys s3 batch_size) names))"
  by (simp add: list_s3_keys_def)

subsection \<open>The batch-size contract\<close>

text \<open>
  Claim C7. Batch-size contract: for a container whose pages are all delivered without
  error and list \<open>N\<close> descriptors, and for a positive batch size \<open>B\<close>, the batches
  \<open>list_s3_keys\<close> emits for that container, concatenated, are the descriptors in listing
  order; there are \<open>ceil(N/B)\<close> of them; each has size \<open>B\<close>, except that the last has size
  \<open>N mod B\<close> when that is not zero. A call with the container's name yields these batches,
  and a call for all containers yields the batches of the containers one after the other.
\<close>

theorem list_s3_keys_batch_size_contract:
  assumes "0 < batch_size"
    and "without_error (paginate s3 bucket_name)"
  shows "concat (list_bucket_keys s3 batch_size bucket_name) =
       listed_descriptors bucket_name (paginate s3 bucket_name) \<and>
     length (list_bucket_keys s3 batch_size bucket_name) =
       (length (listed_descriptors bucket_name (paginate s3 bucket_name)) + nat batch_size - 1)
         div nat batch_size \<and>
     (\<forall>i < length (list_bucket_keys s3 batch_size bucket_name).
        length (list_bucket_keys s3 batch_size bucket_name ! i) =
          (if Suc i < length (list_bucket_keys s3 batch_size bucket_name) then nat batch_size
           else if length (listed_descriptors bucket_name (paginate s3 bucket_name))
                     mod nat batch_size = 0
                then nat batch_size
                else length (listed_descriptors bucket_name (paginate s3 bucket_name))
                       mod nat batch_size)) \<and>
     (bucket_name \<noteq> [] \<longrightarrow>
        list_s3_keys s3 (Some bucket_name) batch_size =
          Inr (list_bucket_keys s3 batch_size bucket_name)) \<and>
     (\<forall>names. list_buckets s3 = Inr names \<longrightarrow>
        list_s3_keys s3 None batch_size =
          Inr (concat (map (list_bucket_keys s3 batch_size) names)))"
proof -
  let ?ds = "listed_descriptors bucket_name (paginate s3 bucket_name)"
  have pos: "0 < nat batch_size" using assms(1) by simp
  have c: "list_bucket_keys s3 batch_size bucket_name = chunks (nat batch_size) ?ds"
    using assms(1) by (rule list_bucket_keys_chunks)
  have "concat (chunks (nat batch_size) ?ds) = ?ds"
    using pos by (rule concat_chunks)
  moreover have "length (chunks (nat batch_size) ?ds) =
      (length ?ds + nat batch_size - 1) div nat batch_size"
    using pos by (rule length_chunks)
  moreover have "length (chunks (nat batch_size) ?ds ! i) =
      (if Suc i < length (chunks (nat batch_size) ?ds) then nat batch_size
       else if length ?ds mod nat batch_size = 0 then nat batch_size
            else length ?ds mod nat batch_size)"
    if "i < length (chunks (nat batch_size) ?ds)" for i
    using pos that by (rule length_nth_chunks)
  ultimately show ?thesis
    unfolding c by (simp add: list_s3_keys_named list_s3_keys_all c)
qed

text \<open>Five objects on two pages, with a page without \<open>Contents\<close> between them, in batches of two.\<close>

theorem list_s3_keys_batch_size_contract_witness:
  "list_s3_keys
     \<lparr>list_buckets = Inr [''bk''],
      paginate = (\<lambda>b. [Page (Some [\<lparr>Key = ''k1'', LastModified = ''t''\<rparr>,
                                    \<lparr>Key = ''k2'', LastModified = ''t''\<rparr>,
                                    \<lparr>Key = ''k3'', LastModified = ''t''\<rparr>]),
                        Page None,
                        Page (Some [\<lparr>Key = ''k4'', LastModified = ''t''\<rparr>,
                                    \<lparr>Key = ''k5'', LastModified = ''t''\<rparr>])])\<rparr>
     (Some ''bk'') 2 =
   Inr [[\<lparr>bucket = ''bk'', key = ''k1'', last_modified = ''t''\<rparr>,
         \<lparr>bucket = ''bk'', key = ''k2'', last_modified = ''t''\<rparr>],
        [\<lparr>bucket = ''bk'', key = ''k3'', last_modified = ''t''\<rparr>,
         \<lparr>bucket = ''bk'', key = ''k4'', last_modified = ''t''\<rparr>],
        [\<lparr>bucket = ''bk'', key = ''k5'', last_modified = ''t''\<rparr>]]"
proof -
  let ?s3 = "\<lparr>list_buckets = Inr [''bk''],
      paginate = (\<lambda>b. [Page (Some [\<lparr>Key = ''k1'', LastModified = ''t''\<rparr>,
                                    \<lparr>Key = ''k2'', LastModified = ''t''\<rparr>,
                                    \<lparr>Key = ''k3'', LastModified = ''t''\<rparr>]),
                        Page None,
                        Page (Some [\<lparr>Key = ''k4'', LastModified = ''t''\<rparr>,
                                    \<lparr>Key = ''k5'', LastModified = ''t''\<rparr>])])\<rparr>"
  have h1: "(0::int) < 2" by simp
  have h2: "without_error (paginate ?s3 ''bk'')" by (simp add: without_error_def)
  from list_s3_keys_batch_size_contract [OF h1 h2] show ?thesis
    by (simp add: list_bucket_keys_def make_descriptor_def)
qed

subsection \<open>Recovery from a failing container\<close>

text \<open>
  Claim C8. Per-container failure recovery: when the listing of a container raises after the
  pages \<open>pages\<close>, \<open>list_s3_keys\<close> emits for that container the very batches of a listing that
  ends after \<open>pages\<close>, so the descriptors still in the buffer come out as a last short batch,
  and every descriptor listed before the failure is emitted, in order; only what the
  container would have listed afterwards is missing. The call does not raise, and in a call
  for all containers the batches of the containers before and after the failing one are
  emitted as well.
\<close>

theorem list_s3_keys_failure_recovery:
  assumes "paginate s3 bucket_name = pages @ PageError # rest"
  shows "list_bucket_keys s3 batch_size bucket_name =
       bucket_pages batch_size bucket_name pages [] \<and>
     concat (list_bucket_keys s3 batch_size bucket_name) =
       listed_descriptors bucket_name pages \<and>
     (bucket_name \<noteq> [] \<longrightarrow>
        list_s3_keys s3 (Some bucket_name) batch_size =
          Inr (bucket_pages batch_size bucket_name pages [])) \<and>
     (\<forall>before after. list_buckets s3 = Inr (before @ bucket_name # after) \<longrightarrow>
        list_s3_keys s3 None batch_size =
          Inr (concat (map (list_bucket_keys s3 batch_size) before) @
               bucket_pages batch_size bucket_name pages [] @
               concat (map (list_bucket_keys s3 batch_size) after)))"
proof -
  have b: "list_bucket_keys s3 batch_size bucket_name =
      bucket_pages batch_size bucket_name pages []"
    by (simp add: list_bucket_keys_def assms bucket_pages_stops_at_error)
  have c: "concat (bucket_pages batch_size bucket_name pages []) =
      listed_descriptors bucket_name pages"
    by (simp add: bucket_pages_concat)
  from b c show ?thesis
    by (simp add: list_s3_keys_named list_s3_keys_all)
qed

text \<open>
  The first container fails after its first page of three objects, the second container is
  listed all the same.
\<close>

theorem list_s3_keys_failure_recovery_witness:
  "list_s3_keys
     \<lparr>list_buckets = Inr [''bad'', ''good''],
      paginate = (\<lambda>b. if b = ''bad''
         then [Page (Some [\<lparr>Key = ''k1'', LastModified = ''t''\<rparr>,
                           \<lparr>Key = ''k2'', LastModified = ''t''\<rparr>,
                           \<lparr>Key = ''k3'', LastModified = ''t''\<rparr>]),
               PageError,
               Page (Some [\<lparr>Key = ''k4'', LastModified = ''t''\<rparr>])]
         else [Page (Some [\<lparr>Key = ''g1'', LastModified = ''t''\<rparr>])])\<rparr>
     None 2 =
   Inr [[\<lparr>bucket = ''bad'', key = ''k1'', last_modified = ''t''\<rparr>,
         \<lparr>bucket = ''bad'', key = ''k2'', last_modified = ''t''\<rparr>],
        [\<lparr>bucket = ''bad'', key = ''k3'', last_modified = ''t''\<rparr>],
        [\<lparr>bucket = ''good'', key = ''g1'', last_modified = ''t''\<rparr>]]"
proof -
  let ?s3 = "\<lparr>list_buckets = Inr [''bad'', ''good''],
      paginate = (\<lambda>b. if b = ''bad''
         then [Page (Some [\<lparr>Key = ''k1'', LastModified = ''t''\<rparr>,
                           \<lparr>Key = ''k2'', LastModified = ''t''\<rparr>,
                           \<lparr>Key = ''k3'', LastModified = ''t''\<rparr>]),
               PageError,
               Page (Some [\<lparr>Key = ''k4'', LastModified = ''t''\<rparr>])]
         else [Page (Some [\<lparr>Key = ''g1'', LastModified = ''t''\<rparr>])])\<rparr>"
  have h: "paginate ?s3 ''bad'' =
      [Page (Some [\<lparr>Key = ''k1'', LastModified = ''t''\<rparr>,
                   \<lparr>Key = ''k2'', LastModified = ''t''\<rparr>,
                   \<lparr>Key = ''k3'', LastModified = ''t''\<rparr>])] @
      PageError # [Page (Some [\<lparr>Key = ''k4'', LastModified = ''t''\<rparr>])]"
    by simp
  from list_s3_keys_failure_recovery [OF h, of 2] show ?thesis
    by (simp add: list_s3_keys_def list_bucket_keys_def make_descriptor_def)
qed

end
